theory Spec2Isabelle
  imports Complex_Main
begin

section \<open>Strings\<close>

text \<open>
  A JavaScript string is modelled as a \<^typ>\<open>string\<close>: a list of characters, each standing
  for one UTF-16 code unit below 256. The character classes of the regular expressions
  are written out for that range. JavaScript numbers that hold line numbers and counts are
  modelled as natural numbers and integers (exact below \<open>2^53\<close>); the similarity and the
  percentage, which are quotients, are modelled as rationals.
\<close>

text \<open>The line terminators that \<open>.\<close> does not match and at which \<open>$\<close> matches under \<open>/m\<close>.\<close>

definition isLineTerminator :: "char \<Rightarrow> bool" where
  "isLineTerminator c = (c = CHR 0x0A \<or> c = CHR 0x0D)"

text \<open>The class \<open>\s\<close>, which is also what \<open>trim()\<close> removes.\<close>

definition isWhiteSpace :: "char \<Rightarrow> bool" where
  "isWhiteSpace c = (c = CHR 0x09 \<or> c = CHR 0x0A \<or> c = CHR 0x0B \<or> c = CHR 0x0C
     \<or> c = CHR 0x0D \<or> c = CHR 0x20 \<or> c = CHR 0xA0)"

text \<open>The class \<open>\d\<close>.\<close>

definition isDigit :: "char \<Rightarrow> bool" where
  "isDigit c = (let n = (of_char c :: nat) in 48 \<le> n \<and> n \<le> 57)"

text \<open>The class \<open>\w\<close>.\<close>

definition isWordChar :: "char \<Rightarrow> bool" where
  "isWordChar c = (let n = (of_char c :: nat) in
     (48 \<le> n \<and> n \<le> 57) \<or> (65 \<le> n \<and> n \<le> 90) \<or> (97 \<le> n \<and> n \<le> 122) \<or> n = 95)"

text \<open>\<open>toLowerCase()\<close> on one code unit below 256.\<close>

definition toLowerChar :: "char \<Rightarrow> char" where
  "toLowerChar c = (let n = (of_char c :: nat) in
     if (65 \<le> n \<and> n \<le> 90) \<or> (192 \<le> n \<and> n \<le> 222 \<and> n \<noteq> 215)
     then char_of (n + 32) else c)"

definition toLowerCase :: "string \<Rightarrow> string" where
  "toLowerCase s = map toLowerChar s"

fun startsWith :: "string \<Rightarrow> string \<Rightarrow> bool" where
  "startsWith s [] = True"
| "startsWith [] (p # ps) = False"
| "startsWith (c # cs) (p # ps) = (if c = p then startsWith cs ps else False)"

text \<open>\<open>s.split('\n')\<close>: always at least one piece.\<close>

fun split_newline :: "string \<Rightarrow> string list" where
  "split_newline [] = [[]]"
| "split_newline (c # cs) =
     (if c = CHR 0x0A then [] # split_newline cs
      else let pieces = split_newline cs in (c # hd pieces) # tl pieces)"

text \<open>\<open>xs.join(sep)\<close>.\<close>

fun join :: "string \<Rightarrow> string list \<Rightarrow> string" where
  "join sep [] = []"
| "join sep [x] = x"
| "join sep (x # y # ys) = x @ sep @ join sep (y # ys)"

text \<open>\<open>trim()\<close>.\<close>

definition trim :: "string \<Rightarrow> string" where
  "trim s = rev (dropWhile isWhiteSpace (rev (dropWhile isWhiteSpace s)))"

text \<open>Decimal digits of a number, as template literals print an integer.\<close>

fun digits_of :: "nat \<Rightarrow> string" where
  "digits_of n =
     (if n < 10 then [char_of (48 + n)]
      else digits_of (n div 10) @ [char_of (48 + n mod 10)])"

text \<open>\<open>parseInt(ds, 10)\<close> on a string of digits.\<close>

definition parseInt :: "string \<Rightarrow> nat" where
  "parseInt ds = foldl (\<lambda>acc c. 10 * acc + (of_char c - 48)) 0 ds"

text \<open>The order in which the default \<open>sort()\<close> compares two strings: by code units.\<close>

fun string_less :: "string \<Rightarrow> string \<Rightarrow> bool" where
  "string_less [] [] = False"
| "string_less [] (y # ys) = True"
| "string_less (x # xs) [] = False"
| "string_less (x # xs) (y # ys) =
     (if x = y then string_less xs ys else (of_char x :: nat) < of_char y)"

text \<open>\<open>[a, b].sort().join('|')\<close>.\<close>

definition sorted_pair_key :: "string \<Rightarrow> string \<Rightarrow> string" where
  "sorted_pair_key a b =
     (if string_less b a then b @ ''|'' @ a else a @ ''|'' @ b)"

section \<open>Patch parser\<close>

record added_line =
  lineNumber :: nat
  content :: string

text \<open>\<open>line.match(/\+(\d+)/)\<close>: the digits after the first \<open>+\<close> that a digit follows.\<close>

fun match_plus_digits :: "string \<Rightarrow> string option" where
  "match_plus_digits [] = None"
| "match_plus_digits (c # cs) =
     (if c = CHR ''+'' \<and> cs \<noteq> [] \<and> isDigit (hd cs) then Some (takeWhile isDigit cs)
      else match_plus_digits cs)"

text \<open>The body of the loop over the lines of the patch; the state is \<open>currentLine\<close> and the
  lines collected so far.\<close>

fun extract_loop :: "nat \<Rightarrow> string list \<Rightarrow> added_line list" where
  "extract_loop currentLine [] = []"
| "extract_loop currentLine (line # rest) =
     (if startsWith line ''@@'' then
        (case match_plus_digits line of
           Some ds \<Rightarrow> extract_loop (parseInt ds) rest
         | None \<Rightarrow> extract_loop currentLine rest)
      else if startsWith line ''+'' \<and> \<not> startsWith line ''+++'' then
        \<lparr>lineNumber = currentLine, content = tl line\<rparr> # extract_loop (currentLine + 1) rest
      else if \<not> startsWith line ''-'' then extract_loop (currentLine + 1) rest
      else extract_loop currentLine rest)"

definition extractAddedLines :: "string \<Rightarrow> added_line list" where
  "extractAddedLines patch = extract_loop 0 (split_newline patch)"

section \<open>Normalizer\<close>

text \<open>\<open>.replace(/\/\/.*$/gm, '')\<close>: from \<open>//\<close> to the end of the line. The flag says whether
  the scan is inside a match.\<close>

fun strip_line_comments :: "bool \<Rightarrow> string \<Rightarrow> string" where
  "strip_line_comments inside [] = []"
| "strip_line_comments True (c # cs) =
     (if isLineTerminator c then c # strip_line_comments False cs
      else strip_line_comments True cs)"
| "strip_line_comments False (c # cs) =
     (if c = CHR ''/'' \<and> startsWith cs ''/'' then strip_line_comments True cs
      else c # strip_line_comments False cs)"

text \<open>The text after the first \<open>*/\<close>, when there is one.\<close>

fun after_comment_end :: "string \<Rightarrow> string option" where
  "after_comment_end [] = None"
| "after_comment_end (c # cs) =
     (if c = CHR ''*'' \<and> startsWith cs ''/'' then Some (tl cs) else after_comment_end cs)"

lemma after_comment_end_length:
  "after_comment_end s = Some r \<Longrightarrow> length r < length s"
  by (induction s) (auto split: if_splits simp: less_Suc_eq intro: diff_le_self le_less_trans)

text \<open>\<open>.replace(/\/\*[\s\S]*?\*\//g, '')\<close>: a \<open>/*\<close> with no \<open>*/\<close> after it stays.\<close>

function strip_block_comments :: "string \<Rightarrow> string" where
  "strip_block_comments [] = []"
| "strip_block_comments (c # cs) =
     (if c = CHR ''/'' \<and> startsWith cs ''*'' then
        (case after_comment_end (tl cs) of
           Some r \<Rightarrow> strip_block_comments r
         | None \<Rightarrow> c # strip_block_comments cs)
      else c # strip_block_comments cs)"
  by pat_completeness auto
termination
proof (relation "measure length")
  fix c cs r
  assume "after_comment_end (tl cs) = Some r"
  then have "length r < length (tl cs)" by (rule after_comment_end_length)
  then show "(r, c # cs) \<in> measure length" by simp
qed simp_all

text \<open>The body \<open>([^q\\]|\\.)*q\<close> of a literal quoted by \<open>q\<close>: the text after the closing quote,
  when the body matches. Each alternative is decided by its first character, so the
  match is unique.\<close>

fun after_literal :: "char \<Rightarrow> string \<Rightarrow> string option" where
  "after_literal q [] = None"
| "after_literal q [c] = (if c = q then Some [] else None)"
| "after_literal q (c # d # ds) =
     (if c = q then Some (d # ds)
      else if c = CHR 0x5C then (if isLineTerminator d then None else after_literal q ds)
      else after_literal q (d # ds))"

lemma after_literal_length:
  "after_literal q s = Some r \<Longrightarrow> length r < length s"
  by (induction q s rule: after_literal.induct) (auto split: if_splits)

text \<open>\<open>.replace(/q([^q\\]|\\.)*q/g, 'qq')\<close> for a quote character \<open>q\<close>.\<close>

function elide_literals :: "char \<Rightarrow> string \<Rightarrow> string" where
  "elide_literals q [] = []"
| "elide_literals q (c # cs) =
     (if c = q then
        (case after_literal q cs of
           Some r \<Rightarrow> q # q # elide_literals q r
         | None \<Rightarrow> c # elide_literals q cs)
      else c # elide_literals q cs)"
  by pat_completeness auto
termination
proof (relation "measure (\<lambda>(q, s). length s)")
  fix q c cs r
  assume "after_literal q cs = Some r"
  then have "length r < length cs" by (rule after_literal_length)
  then show "((q, r), (q, c # cs)) \<in> measure (\<lambda>(q, s). length s)" by simp
qed simp_all

text \<open>\<open>.replace(/\s+/g, ' ')\<close>. The flag says whether the scan is inside a run.\<close>

fun collapse_whitespace :: "bool \<Rightarrow> string \<Rightarrow> string" where
  "collapse_whitespace inside [] = []"
| "collapse_whitespace inside (c # cs) =
     (if isWhiteSpace c then
        (if inside then collapse_whitespace True cs
         else CHR '' '' # collapse_whitespace True cs)
      else c # collapse_whitespace False cs)"

definition normalizeCode :: "string \<Rightarrow> string" where
  "normalizeCode code =
     toLowerCase (trim (collapse_whitespace False
       (elide_literals (CHR 0x60) (elide_literals (CHR 0x27) (elide_literals (CHR 0x22)
         (strip_block_comments (strip_line_comments False code)))))))"

section \<open>Data model\<close>

record line_range =
  start :: nat
  end' :: nat

record code_block =
  "file" :: string
  startLine :: nat
  endLine :: nat
  block_code :: string
  normalizedCode :: string
  hash :: string

record file_location =
  loc_file :: string
  loc_lines :: line_range

record duplicate_block =
  file1 :: string
  file2 :: string
  lines1 :: line_range
  lines2 :: line_range
  code :: string
  similarity :: rat
  clusterSize :: "nat option"
  allFiles :: "file_location list option"
  patternHash :: "string option"

datatype severity_level = Low | Medium | High

record analysis =
  percentage :: rat
  severity :: severity_level
  duplicateBlocks :: "duplicate_block list"
  totalLines :: int
  duplicatedLines :: nat

text \<open>
  The input as JavaScript can pass it: the \<open>patch\<close> of a file is absent, a string, or a
  value that is not a string (and truthy, so that \<open>patch.split\<close> is not a function); an
  element of the list is an object or \<open>null\<close>; the list itself is an array or a value
  that \<open>for ... of\<close> cannot iterate (such as \<open>null\<close>).
\<close>

datatype js_patch = PatchMissing | PatchText string | PatchNotString

record pr_file =
  filename :: string
  status :: string
  additions :: int
  deletions :: int
  changes :: int
  patch :: js_patch

datatype js_file = FileObject pr_file | FileNull

datatype js_files = FileArray "js_file list" | NotIterable

datatype js_error = TypeError

definition MIN_BLOCK_SIZE :: nat where
  "MIN_BLOCK_SIZE = 10"

definition SIMILARITY_THRESHOLD :: rat where
  "SIMILARITY_THRESHOLD = 85 / 100"

definition CLUSTER_SIMILARITY_THRESHOLD :: rat where
  "CLUSTER_SIMILARITY_THRESHOLD = 9 / 10"

text \<open>An insertion-ordered \<open>Map\<close> whose values are arrays: \<open>if (!m.has(k)) m.set(k, []);
  m.get(k).push(v)\<close>.\<close>

fun map_push :: "'k \<Rightarrow> 'v \<Rightarrow> ('k \<times> 'v list) list \<Rightarrow> ('k \<times> 'v list) list" where
  "map_push k v [] = [(k, [v])]"
| "map_push k v ((k', vs) # m) =
     (if k' = k then (k', vs @ [v]) # m else (k', vs) # map_push k v m)"

text \<open>The nested loops \<open>for (i = 0; ...) for (j = i + 1; ...)\<close> over an array, with the
  loop body \<open>f\<close> acting on a state.\<close>

fun pairs_inner :: "('a \<Rightarrow> 'a \<Rightarrow> 's \<Rightarrow> 's) \<Rightarrow> 'a \<Rightarrow> 'a list \<Rightarrow> 's \<Rightarrow> 's" where
  "pairs_inner f x [] s = s"
| "pairs_inner f x (y # ys) s = pairs_inner f x ys (f x y s)"

fun pairs_loop :: "('a \<Rightarrow> 'a \<Rightarrow> 's \<Rightarrow> 's) \<Rightarrow> 'a list \<Rightarrow> 's \<Rightarrow> 's" where
  "pairs_loop f [] s = s"
| "pairs_loop f (x # xs) s = pairs_loop f xs (pairs_inner f x xs s)"

section \<open>Skip filter and triviality filter\<close>

definition endsWith :: "string \<Rightarrow> string \<Rightarrow> bool" where
  "endsWith s suf = startsWith (rev s) (rev suf)"

fun contains_str :: "string \<Rightarrow> string \<Rightarrow> bool" where
  "contains_str [] sub = (sub = [])"
| "contains_str (c # cs) sub = (if startsWith (c # cs) sub then True else contains_str cs sub)"

text \<open>The two shapes of the skip patterns: \<open>/lit$/\<close> and \<open>/lit/\<close>.\<close>

datatype skip_pattern = AtEnd string | Anywhere string

fun pattern_test :: "skip_pattern \<Rightarrow> string \<Rightarrow> bool" where
  "pattern_test (AtEnd lit) s = endsWith s lit"
| "pattern_test (Anywhere lit) s = contains_str s lit"

definition skipPatterns :: "skip_pattern list" where
  "skipPatterns =
     [AtEnd ''.json'', AtEnd ''.md'', AtEnd ''.txt'', AtEnd ''.yaml'', AtEnd ''.yml'',
      AtEnd ''.lock'', AtEnd ''package-lock.json'', AtEnd ''yarn.lock'', AtEnd ''.min.js'',
      Anywhere ''.test.'', Anywhere ''.spec.'', Anywhere ''/__tests__/'',
      Anywhere ''/node_modules/'', Anywhere ''/dist/'', Anywhere ''/build/'']"

definition shouldSkipFile :: "string \<Rightarrow> bool" where
  "shouldSkipFile name = list_ex (\<lambda>p. pattern_test p name) skipPatterns"

text \<open>\<open>/^import\s/\<close> and \<open>/^export\s/\<close>.\<close>

definition keyword_then_space :: "string \<Rightarrow> string \<Rightarrow> bool" where
  "keyword_then_space kw s =
     (startsWith s kw \<and> (case drop (length kw) s of [] \<Rightarrow> False | c # cs \<Rightarrow> isWhiteSpace c))"

text \<open>\<open>/^const\s+\w+\s*=\s*require/\<close>. The classes \<open>\s\<close>, \<open>\w\<close> and \<open>=\<close> are disjoint, so
  the greedy match is the only one.\<close>

definition const_require :: "string \<Rightarrow> bool" where
  "const_require s =
     (startsWith s ''const'' \<and>
      (let r1 = drop 5 s; r2 = dropWhile isWhiteSpace r1; r3 = dropWhile isWordChar r2;
           r4 = dropWhile isWhiteSpace r3
       in r2 \<noteq> r1 \<and> r3 \<noteq> r2 \<and> startsWith r4 ''='' \<and>
          startsWith (dropWhile isWhiteSpace (tl r4)) ''require''))"

text \<open>\<open>/^\s*c\s*$/\<close> for a single character \<open>c\<close>.\<close>

definition only_char :: "char \<Rightarrow> string \<Rightarrow> bool" where
  "only_char c s =
     (case dropWhile isWhiteSpace s of [] \<Rightarrow> False
      | d # ds \<Rightarrow> d = c \<and> list_all isWhiteSpace ds)"

text \<open>\<open>startsWith\<close> under the flag \<open>/i\<close>, for a pattern in lower case.\<close>

fun startsWith_ci :: "string \<Rightarrow> string \<Rightarrow> bool" where
  "startsWith_ci s [] = True"
| "startsWith_ci [] (p # ps) = False"
| "startsWith_ci (c # cs) (p # ps) = (if toLowerChar c = p then startsWith_ci cs ps else False)"

text \<open>The number of matches of \<open>/classname|class=/gi\<close>.\<close>

fun count_class :: "string \<Rightarrow> nat" where
  "count_class [] = 0"
| "count_class (c # cs) =
     (if startsWith_ci (c # cs) ''classname'' then Suc (count_class (drop 8 cs))
      else if startsWith_ci (c # cs) ''class='' then Suc (count_class (drop 5 cs))
      else count_class cs)"

definition isTrivalBlock :: "string \<Rightarrow> bool" where
  "isTrivalBlock normalized =
     (if length normalized < 30 then True
      else if count_class normalized > 2 \<and> length normalized < 100 then True
      else keyword_then_space ''import'' normalized \<or> keyword_then_space ''export'' normalized
        \<or> const_require normalized
        \<or> only_char (CHR 0x7D) normalized \<or> only_char (CHR 0x7B) normalized
        \<or> only_char (CHR 0x29) normalized \<or> only_char (CHR 0x28) normalized)"

section \<open>Block extractor\<close>

text \<open>
  The digest \<open>crypto.createHash('md5').update(code).digest('hex')\<close> is a function of the
  library; it is the parameter \<open>md5\<close> of every definition that hashes, and the theorems hold
  for every such function.
\<close>

definition hashCode :: "(string \<Rightarrow> string) \<Rightarrow> string \<Rightarrow> string" where
  "hashCode md5 s = md5 s"

text \<open>The windows \<open>lines.slice(i, i + MIN_BLOCK_SIZE)\<close> for \<open>i\<close> from 0 to
  \<open>lines.length - MIN_BLOCK_SIZE\<close>.\<close>

definition windows :: "added_line list \<Rightarrow> added_line list list" where
  "windows lines =
     map (\<lambda>i. take MIN_BLOCK_SIZE (drop i lines)) [0 ..< Suc (length lines - MIN_BLOCK_SIZE)]"

definition block_of_window ::
  "(string \<Rightarrow> string) \<Rightarrow> string \<Rightarrow> added_line list \<Rightarrow> code_block list" where
  "block_of_window md5 name blockLines =
     (let raw = join [CHR 0x0A] (map content blockLines);
          normalized = normalizeCode raw
      in if isTrivalBlock normalized then []
         else [\<lparr>file = name,
                startLine = lineNumber (blockLines ! 0),
                endLine = lineNumber (blockLines ! (length blockLines - 1)),
                block_code = raw,
                normalizedCode = normalized,
                hash = hashCode md5 normalized\<rparr>])"

text \<open>The blocks of one file object.\<close>

definition blocks_of_file :: "(string \<Rightarrow> string) \<Rightarrow> pr_file \<Rightarrow> js_error + code_block list" where
  "blocks_of_file md5 f =
     (if shouldSkipFile (filename f) then Inr []
      else case patch f of
        PatchMissing \<Rightarrow> Inr []
      | PatchNotString \<Rightarrow> Inl TypeError
      | PatchText p \<Rightarrow>
          (if p = [] then Inr []
           else let lines = extractAddedLines p
                in if length lines < MIN_BLOCK_SIZE then Inr []
                   else Inr (concat (map (block_of_window md5 (filename f)) (windows lines)))))"

fun extractCodeBlocks :: "(string \<Rightarrow> string) \<Rightarrow> js_file list \<Rightarrow> js_error + code_block list" where
  "extractCodeBlocks md5 [] = Inr []"
| "extractCodeBlocks md5 (FileNull # fs) = Inl TypeError"
| "extractCodeBlocks md5 (FileObject f # fs) =
     (case blocks_of_file md5 f of
        Inl e \<Rightarrow> Inl e
      | Inr bs \<Rightarrow>
          (case extractCodeBlocks md5 fs of
             Inl e \<Rightarrow> Inl e
           | Inr rest \<Rightarrow> Inr (bs @ rest)))"

section \<open>Duplicate detector\<close>

text \<open>\<open>code.split(/\s+/)\<close>: the pieces between the runs of white space; a run at either end
  leaves an empty piece there. The flag says whether the scan is inside a run.\<close>

fun split_whitespace :: "bool \<Rightarrow> string \<Rightarrow> string list" where
  "split_whitespace inside [] = [[]]"
| "split_whitespace inside (c # cs) =
     (if isWhiteSpace c then
        (if inside then split_whitespace True cs else [] # split_whitespace True cs)
      else let pieces = split_whitespace False cs in (c # hd pieces) # tl pieces)"

text \<open>Jaccard similarity of the two token sets.\<close>

definition calculateSimilarity :: "string \<Rightarrow> string \<Rightarrow> rat" where
  "calculateSimilarity code1 code2 =
     (let tokens1 = remdups (split_whitespace False code1);
          tokens2 = remdups (split_whitespace False code2);
          intersection = filter (\<lambda>x. x \<in> set tokens2) tokens1;
          union = remdups (tokens1 @ tokens2)
      in if length union > 0 then of_nat (length intersection) / of_nat (length union) else 0)"

definition block_key :: "code_block \<Rightarrow> string" where
  "block_key b = file b @ '':'' @ digits_of (startLine b) @ ''-'' @ digits_of (endLine b)"

definition createDuplicateKey :: "code_block \<Rightarrow> code_block \<Rightarrow> string" where
  "createDuplicateKey block1 block2 = sorted_pair_key (block_key block1) (block_key block2)"

text \<open>The record that both passes push for the blocks \<open>bi\<close> and \<open>bj\<close>.\<close>

definition pair_of_blocks :: "code_block \<Rightarrow> code_block \<Rightarrow> rat \<Rightarrow> duplicate_block" where
  "pair_of_blocks bi bj sim =
     \<lparr>file1 = file bi, file2 = file bj,
      lines1 = \<lparr>start = startLine bi, end' = endLine bi\<rparr>,
      lines2 = \<lparr>start = startLine bj, end' = endLine bj\<rparr>,
      code = block_code bi, similarity = sim,
      clusterSize = None, allFiles = None, patternHash = None\<rparr>"

text \<open>The state of both passes: the list \<open>duplicates\<close> and the set \<open>seen\<close>.\<close>

type_synonym detector_state = "duplicate_block list \<times> string list"

definition exact_step :: "code_block \<Rightarrow> code_block \<Rightarrow> detector_state \<Rightarrow> detector_state" where
  "exact_step bi bj st =
     (if file bi = file bj then st
      else let key = createDuplicateKey bi bj
           in if key \<in> set (snd st) then st
              else (fst st @ [pair_of_blocks bi bj 1], snd st @ [key]))"

definition fuzzy_step :: "code_block \<Rightarrow> code_block \<Rightarrow> detector_state \<Rightarrow> detector_state" where
  "fuzzy_step bi bj st =
     (if file bi = file bj then st
      else let sim = calculateSimilarity (normalizedCode bi) (normalizedCode bj)
           in if sim \<ge> SIMILARITY_THRESHOLD \<and> sim < 1 then
                (let key = createDuplicateKey bi bj
                 in if key \<in> set (snd st) then st
                    else (fst st @ [pair_of_blocks bi bj sim], snd st @ [key]))
              else st)"

definition hash_buckets :: "code_block list \<Rightarrow> (string \<times> code_block list) list" where
  "hash_buckets blocks = foldl (\<lambda>m b. map_push (hash b) b m) [] blocks"

text \<open>The body of the loop over the buckets of the map, and the first pass.\<close>

definition bucket_step :: "detector_state \<Rightarrow> string \<times> code_block list \<Rightarrow> detector_state" where
  "bucket_step st bucket =
     (if length (snd bucket) > 1 then pairs_loop exact_step (snd bucket) st else st)"

definition exact_pass :: "code_block list \<Rightarrow> detector_state" where
  "exact_pass blocks = foldl bucket_step ([], []) (hash_buckets blocks)"

text \<open>The list \<open>duplicates\<close> after both passes.\<close>

definition detect_pairs :: "code_block list \<Rightarrow> duplicate_block list" where
  "detect_pairs blocks = fst (pairs_loop fuzzy_step blocks (exact_pass blocks))"

section \<open>Sorting\<close>

text \<open>\<open>xs.sort(cmp)\<close>: the sort is stable, and for a comparator that is a total preorder
  its result is the one of a stable insertion sort.\<close>

fun insert_by :: "('a \<Rightarrow> 'a \<Rightarrow> 'n::{linorder,zero}) \<Rightarrow> 'a \<Rightarrow> 'a list \<Rightarrow> 'a list" where
  "insert_by cmp x [] = [x]"
| "insert_by cmp x (y # ys) =
     (if cmp x y \<le> 0 then x # y # ys else y # insert_by cmp x ys)"

definition js_sort :: "('a \<Rightarrow> 'a \<Rightarrow> 'n::{linorder,zero}) \<Rightarrow> 'a list \<Rightarrow> 'a list" where
  "js_sort cmp xs = foldr (insert_by cmp) xs []"

section \<open>Overlap merger\<close>

definition merge_two :: "duplicate_block \<Rightarrow> duplicate_block \<Rightarrow> duplicate_block" where
  "merge_two current next =
     current\<lparr>lines1 := \<lparr>start = min (start (lines1 current)) (start (lines1 next)),
                        end' = max (end' (lines1 current)) (end' (lines1 next))\<rparr>,
             lines2 := \<lparr>start = min (start (lines2 current)) (start (lines2 next)),
                        end' = max (end' (lines2 current)) (end' (lines2 next))\<rparr>,
             similarity := max (similarity current) (similarity next)\<rparr>"

fun merge_walk :: "duplicate_block \<Rightarrow> duplicate_block list \<Rightarrow> duplicate_block list" where
  "merge_walk current [] = [current]"
| "merge_walk current (next # rest) =
     (if start (lines1 next) \<le> end' (lines1 current) + 2
         \<and> start (lines2 next) \<le> end' (lines2 current) + 2
      then merge_walk (merge_two current next) rest
      else current # merge_walk next rest)"

text \<open>One group of the merger. A group is never empty (it is a value of the map).\<close>

definition merge_group :: "duplicate_block list \<Rightarrow> duplicate_block list" where
  "merge_group groupDuplicates =
     (case js_sort (\<lambda>a b. int (start (lines1 a)) - int (start (lines1 b))) groupDuplicates of
        [] \<Rightarrow> []
      | current # rest \<Rightarrow> merge_walk current rest)"

definition file_pair_groups :: "duplicate_block list \<Rightarrow> (string \<times> duplicate_block list) list" where
  "file_pair_groups duplicates =
     foldl (\<lambda>m dup. map_push (sorted_pair_key (file1 dup) (file2 dup)) dup m) [] duplicates"

definition mergeOverlappingDuplicates :: "duplicate_block list \<Rightarrow> duplicate_block list" where
  "mergeOverlappingDuplicates duplicates =
     (if duplicates = [] then []
      else concat (map (\<lambda>(k, g). merge_group g) (file_pair_groups duplicates)))"

section \<open>Pattern clusterer\<close>

text \<open>
  The union-find forest is the array \<open>parent\<close>. \<open>find\<close> is recursive with path compression
  and the source gives no bound for it, so it is a partial function: \<open>None\<close> stands for a
  call that does not return. It returns the array as the call leaves it, and the root.
\<close>

partial_function (option) find_uf :: "nat list \<Rightarrow> nat \<Rightarrow> (nat list \<times> nat) option" where
  "find_uf parent x =
     (if parent ! x \<noteq> x then
        Option.bind (find_uf parent (parent ! x))
          (\<lambda>(parent', r). Some (parent'[x := r], parent'[x := r] ! x))
      else Some (parent, parent ! x))"

declare find_uf.simps [code]

definition union_uf :: "nat list \<Rightarrow> nat \<Rightarrow> nat \<Rightarrow> nat list option" where
  "union_uf parent x y =
     Option.bind (find_uf parent x) (\<lambda>(parent1, rootX).
       Option.bind (find_uf parent1 y) (\<lambda>(parent2, rootY).
         Some (if rootX \<noteq> rootY then parent2[rootX := rootY] else parent2)))"

text \<open>The loop over \<open>j\<close> for one \<open>i\<close>, and the loop over \<open>i\<close>.\<close>

fun union_inner ::
  "duplicate_block list \<Rightarrow> nat \<Rightarrow> nat list \<Rightarrow> nat list \<Rightarrow> nat list option" where
  "union_inner ds i [] parent = Some parent"
| "union_inner ds i (j # js) parent =
     (if calculateSimilarity (code (ds ! i)) (code (ds ! j)) \<ge> CLUSTER_SIMILARITY_THRESHOLD
      then (case union_uf parent i j of
              None \<Rightarrow> None
            | Some parent' \<Rightarrow> union_inner ds i js parent')
      else union_inner ds i js parent)"

fun union_outer :: "duplicate_block list \<Rightarrow> nat list \<Rightarrow> nat list \<Rightarrow> nat list option" where
  "union_outer ds [] parent = Some parent"
| "union_outer ds (i # is) parent =
     (case union_inner ds i [Suc i ..< length ds] parent of
        None \<Rightarrow> None
      | Some parent' \<Rightarrow> union_outer ds is parent')"

text \<open>The loop that fills \<open>clusterMap\<close>.\<close>

fun group_by_root ::
  "duplicate_block list \<Rightarrow> nat list \<Rightarrow> nat list \<Rightarrow> (nat \<times> duplicate_block list) list
   \<Rightarrow> (nat \<times> duplicate_block list) list option" where
  "group_by_root ds [] parent m = Some m"
| "group_by_root ds (i # is) parent m =
     (case find_uf parent i of
        None \<Rightarrow> None
      | Some (parent', r) \<Rightarrow> group_by_root ds is parent' (map_push r (ds ! i) m))"

fun range_walk :: "line_range \<Rightarrow> line_range list \<Rightarrow> line_range list" where
  "range_walk current [] = [current]"
| "range_walk current (next # rest) =
     (if start next \<le> end' current + 2
      then range_walk \<lparr>start = min (start current) (start next),
                       end' = max (end' current) (end' next)\<rparr> rest
      else current # range_walk next rest)"

text \<open>The merged ranges of one file. The list of a file is never empty.\<close>

definition merged_ranges :: "line_range list \<Rightarrow> line_range list" where
  "merged_ranges ranges =
     (case js_sort (\<lambda>a b. int (start a) - int (start b)) ranges of
        [] \<Rightarrow> []
      | current # rest \<Rightarrow> range_walk current rest)"

definition file_locations :: "duplicate_block list \<Rightarrow> (string \<times> line_range list) list" where
  "file_locations cluster =
     foldl (\<lambda>m inst. map_push (file2 inst) (lines2 inst) (map_push (file1 inst) (lines1 inst) m))
       [] cluster"

definition all_files_of :: "(string \<times> line_range list) list \<Rightarrow> file_location list" where
  "all_files_of fileLocations =
     concat (map (\<lambda>(f, ranges). map (\<lambda>r. \<lparr>loc_file = f, loc_lines = r\<rparr>) (merged_ranges ranges))
       fileLocations)"

text \<open>\<open>cluster.reduce((best, current) => current.similarity > best.similarity ? current :
  best)\<close>; a cluster is never empty (it is a value of the map).\<close>

definition representative_of :: "duplicate_block list \<Rightarrow> duplicate_block" where
  "representative_of cluster =
     foldl (\<lambda>best current. if similarity current > similarity best then current else best)
       (hd cluster) (tl cluster)"

definition finding_of_cluster :: "(string \<Rightarrow> string) \<Rightarrow> duplicate_block list \<Rightarrow> duplicate_block" where
  "finding_of_cluster md5 cluster =
     (if length cluster = 1 then cluster ! 0
      else let fileLocations = file_locations cluster;
               representative = representative_of cluster
           in representative\<lparr>clusterSize := Some (length fileLocations),
                              allFiles := Some (all_files_of fileLocations),
                              patternHash := Some (hashCode md5 (code representative))\<rparr>)"

definition clusterDuplicatesByPattern ::
  "(string \<Rightarrow> string) \<Rightarrow> duplicate_block list \<Rightarrow> duplicate_block list option" where
  "clusterDuplicatesByPattern md5 duplicates =
     (if duplicates = [] then Some []
      else let n = length duplicates in
        (case union_outer duplicates [0 ..< n] [0 ..< n] of
           None \<Rightarrow> None
         | Some parent \<Rightarrow>
             (case group_by_root duplicates [0 ..< n] parent [] of
                None \<Rightarrow> None
              | Some clusterMap \<Rightarrow>
                  Some (map (\<lambda>(r, cluster). finding_of_cluster md5 cluster) clusterMap))))"

section \<open>The detector as a whole\<close>

definition size_or_one :: "duplicate_block \<Rightarrow> nat" where
  "size_or_one d = (case clusterSize d of None \<Rightarrow> 1 | Some n \<Rightarrow> if n = 0 then 1 else n)"

text \<open>The comparator of the final sort.\<close>

definition report_order :: "duplicate_block \<Rightarrow> duplicate_block \<Rightarrow> rat" where
  "report_order a b =
     (if size_or_one a \<noteq> size_or_one b then of_nat (size_or_one b) - of_nat (size_or_one a)
      else similarity b - similarity a)"

definition findDuplicates ::
  "(string \<Rightarrow> string) \<Rightarrow> code_block list \<Rightarrow> duplicate_block list option" where
  "findDuplicates md5 blocks =
     (case clusterDuplicatesByPattern md5 (mergeOverlappingDuplicates (detect_pairs blocks)) of
        None \<Rightarrow> None
      | Some clustered \<Rightarrow> Some (js_sort report_order clustered))"

section \<open>Aggregate metrics and the analyzer\<close>

fun total_loop :: "int \<Rightarrow> js_file list \<Rightarrow> js_error + int" where
  "total_loop acc [] = Inr acc"
| "total_loop acc (FileNull # fs) = Inl TypeError"
| "total_loop acc (FileObject f # fs) =
     total_loop (if shouldSkipFile (filename f) then acc else acc + additions f) fs"

definition calculateTotalLines :: "js_file list \<Rightarrow> js_error + int" where
  "calculateTotalLines files = total_loop 0 files"

text \<open>The strings that one finding adds to \<open>uniqueLines\<close>.\<close>

definition line_keys :: "string \<Rightarrow> line_range \<Rightarrow> string list" where
  "line_keys name r = map (\<lambda>i. name @ '':'' @ digits_of i) [start r ..< Suc (end' r)]"

definition calculateDuplicatedLines :: "duplicate_block list \<Rightarrow> nat" where
  "calculateDuplicatedLines duplicates =
     length (remdups (concat (map (\<lambda>dup. line_keys (file1 dup) (lines1 dup)
                                          @ line_keys (file2 dup) (lines2 dup)) duplicates)))"

definition calculateSeverity :: "rat \<Rightarrow> severity_level" where
  "calculateSeverity p = (if p \<ge> 30 then High else if p \<ge> 15 then Medium else Low)"

text \<open>\<open>Math.round(x)\<close>.\<close>

definition math_round :: "rat \<Rightarrow> int" where
  "math_round x = \<lfloor>x + 1 / 2\<rfloor>"

definition empty_report :: analysis where
  "empty_report =
     \<lparr>percentage = 0, severity = Low, duplicateBlocks = [], totalLines = 0,
      duplicatedLines = 0\<rparr>"

text \<open>The percentage before it is rounded.\<close>

definition raw_percentage :: "nat \<Rightarrow> int \<Rightarrow> rat" where
  "raw_percentage duplicated lines_total =
     (if lines_total > 0 then (of_nat duplicated / of_int lines_total) * 100 else 0)"

text \<open>The body of the \<open>try\<close>: an error thrown, or the report; \<open>None\<close> when it does not
  return.\<close>

definition analyze_try :: "(string \<Rightarrow> string) \<Rightarrow> js_files \<Rightarrow> (js_error + analysis) option" where
  "analyze_try md5 files =
     (case files of
        NotIterable \<Rightarrow> Some (Inl TypeError)
      | FileArray fs \<Rightarrow>
          (case extractCodeBlocks md5 fs of
             Inl e \<Rightarrow> Some (Inl e)
           | Inr blocks \<Rightarrow>
               (case findDuplicates md5 blocks of
                  None \<Rightarrow> None
                | Some duplicates \<Rightarrow>
                    (case calculateTotalLines fs of
                       Inl e \<Rightarrow> Some (Inl e)
                     | Inr lines_total \<Rightarrow>
                         (let duplicated = calculateDuplicatedLines duplicates;
                              p = raw_percentage duplicated lines_total
                          in Some (Inr \<lparr>percentage = of_int (math_round (p * 10)) / 10,
                                        severity = calculateSeverity p,
                                        duplicateBlocks = duplicates,
                                        totalLines = lines_total,
                                        duplicatedLines = duplicated\<rparr>))))))"

definition analyzeDuplication :: "(string \<Rightarrow> string) \<Rightarrow> js_files \<Rightarrow> analysis option" where
  "analyzeDuplication md5 files =
     (case analyze_try md5 files of
        None \<Rightarrow> None
      | Some (Inl e) \<Rightarrow> Some empty_report
      | Some (Inr report) \<Rightarrow> Some report)"

section \<open>Notions of the statements\<close>

text \<open>The added lines of every patch carry line numbers that do not decrease, as they do
  when the hunks of the patch are in ascending order.\<close>

definition ascending_patch :: "js_file \<Rightarrow> bool" where
  "ascending_patch f =
     (case f of
        FileNull \<Rightarrow> True
      | FileObject g \<Rightarrow>
          (case patch g of
             PatchText p \<Rightarrow> sorted (map lineNumber (extractAddedLines p))
           | _ \<Rightarrow> True))"

definition ascending_input :: "js_files \<Rightarrow> bool" where
  "ascending_input files =
     (case files of NotIterable \<Rightarrow> True | FileArray fs \<Rightarrow> list_all ascending_patch fs)"


text \<open>Two ranges overlap when they share a line.\<close>

definition ranges_overlap :: "line_range \<Rightarrow> line_range \<Rightarrow> bool" where
  "ranges_overlap a b \<longleftrightarrow> max (start a) (start b) \<le> min (end' a) (end' b)"

text \<open>
  The reference numbering, written from the spec's words: an added line is a line of a hunk
  that begins with \<open>+\<close>, and its line number is its 1-based line number in the post-image of
  the file. A hunk header \<open>@@ -a,b +c,d @@\<close> places the hunk at line \<open>c\<close> of the post-image; the
  post-image of the hunk is made of its context lines (leading space) and its added lines,
  in their order, so the \<open>i\<close>-th of them (from 0) is line \<open>c + i\<close>.
\<close>

definition is_hunk_header :: "string \<Rightarrow> bool" where
  "is_hunk_header l = startsWith l ''@@''"

definition hunk_start :: "string \<Rightarrow> nat" where
  "hunk_start header = (case match_plus_digits header of Some ds \<Rightarrow> parseInt ds | None \<Rightarrow> 0)"

function hunks_of :: "string list \<Rightarrow> (string \<times> string list) list" where
  "hunks_of [] = []"
| "hunks_of (header # ls) =
     (header, takeWhile (\<lambda>l. \<not> is_hunk_header l) ls)
       # hunks_of (dropWhile (\<lambda>l. \<not> is_hunk_header l) ls)"
  by pat_completeness auto
termination
  by (relation "measure length") (simp_all add: length_dropWhile_le less_Suc_eq_le)

definition post_image_of_hunk :: "string list \<Rightarrow> string list" where
  "post_image_of_hunk body = filter (\<lambda>l. startsWith l '' '' \<or> startsWith l ''+'') body"

definition added_in_hunk :: "nat \<Rightarrow> string list \<Rightarrow> added_line list" where
  "added_in_hunk c body =
     (let post = post_image_of_hunk body
      in map (\<lambda>(n, l). \<lparr>lineNumber = n, content = tl l\<rparr>)
           (filter (\<lambda>(n, l). startsWith l ''+'') (zip [c ..< c + length post] post)))"

definition post_image_added_lines :: "string \<Rightarrow> added_line list" where
  "post_image_added_lines p =
     concat (map (\<lambda>(header, body). added_in_hunk (hunk_start header) body)
       (hunks_of (split_newline p)))"




section \<open>Notions of the proofs\<close>



text \<open>Every array of a map is non-empty and holds elements of \<open>S\<close> only.\<close>

definition values_in :: "'v set \<Rightarrow> ('k \<times> 'v list) list \<Rightarrow> bool" where
  "values_in S m \<longleftrightarrow> (\<forall>kv \<in> set m. snd kv \<noteq> [] \<and> set (snd kv) \<subseteq> S)"


text \<open>What a pass of the detector pushes: the pair of two blocks of \<open>B\<close> from different files,
  with the similarity 1 or one from the threshold up to but not including 1.\<close>

definition emitted :: "code_block set \<Rightarrow> duplicate_block \<Rightarrow> bool" where
  "emitted B d \<longleftrightarrow>
     (\<exists>bi bj sim. bi \<in> B \<and> bj \<in> B \<and> file bi \<noteq> file bj
        \<and> (sim = 1 \<or> (SIMILARITY_THRESHOLD \<le> sim \<and> sim < 1))
        \<and> d = pair_of_blocks bi bj sim)"


text \<open>Of two entries for the same file, the earlier one ends more than two lines before
  the later one starts.\<close>

definition apart :: "file_location \<Rightarrow> file_location \<Rightarrow> bool" where
  "apart x y \<longleftrightarrow> (loc_file x = loc_file y \<longrightarrow> end' (loc_lines x) + 2 < start (loc_lines y))"

text \<open>A character that is neither an upper-case letter nor the lower case of one.\<close>

definition caseless :: "char \<Rightarrow> bool" where
  "caseless x \<longleftrightarrow>
     (let k = (of_char x :: nat)
      in \<not> (65 \<le> k \<and> k \<le> 90) \<and> \<not> (192 \<le> k \<and> k \<le> 222)
         \<and> \<not> (97 \<le> k \<and> k \<le> 122) \<and> \<not> (224 \<le> k \<and> k \<le> 254))"

section \<open>Inputs used as examples\<close>

text \<open>
  Five files: three carry the same ten added lines, the fourth and the fifth carry ten
  other lines that differ from each other in one token. The digest is taken to be the
  identity here.
\<close>

definition demo_patch1 :: string where
  "demo_patch1 = ''@@ -0,0 +1,10 @@\<newline>+a0 = b0;\<newline>+a1 = b1;\<newline>+a2 = b2;\<newline>+a3 = b3;\<newline>+a4 = b4;\<newline>+a5 = b5;\<newline>+a6 = b6;\<newline>+a7 = b7;\<newline>+a8 = b8;\<newline>+a9 = b9;''"

definition demo_patch2 :: string where
  "demo_patch2 = ''@@ -3,2 +3,12 @@ top\<newline> keep\<newline>+c0 = d0;\<newline>+c1 = d1;\<newline>+c2 = d2;\<newline>+c3 = d3;\<newline>+c4 = d4;\<newline>+c5 = d5;\<newline>+c6 = d6;\<newline>+c7 = d7;\<newline>+c8 = d8;\<newline>+c9 = d9;\<newline> keep''"

definition demo_patch3 :: string where
  "demo_patch3 = ''@@ -3,2 +3,12 @@ top\<newline> keep\<newline>+c0 = d0;\<newline>+c1 = d1;\<newline>+c2 = d2;\<newline>+c3 = d3;\<newline>+c4 = d4;\<newline>+c5 = d5;\<newline>+c6 = d6;\<newline>+c7 = d7;\<newline>+c8 = d8;\<newline>+c9 = e9;\<newline> keep''"

definition demo_file :: "string \<Rightarrow> int \<Rightarrow> js_patch \<Rightarrow> js_file" where
  "demo_file name n p = FileObject \<lparr>filename = name, status = ''modified'', additions = n,
     deletions = 0, changes = n, patch = p\<rparr>"

definition demo_file_list :: "js_file list" where
  "demo_file_list =
     [demo_file ''a.ts'' 10 (PatchText demo_patch1), demo_file ''b.ts'' 10 (PatchText demo_patch1),
      demo_file ''c.ts'' 10 (PatchText demo_patch1), demo_file ''d.ts'' 10 (PatchText demo_patch2),
      demo_file ''e.ts'' 10 (PatchText demo_patch3)]"

definition demo_files :: js_files where
  "demo_files = FileArray demo_file_list"

definition demo_code1 :: string where
  "demo_code1 = ''a0 = b0;\<newline>a1 = b1;\<newline>a2 = b2;\<newline>a3 = b3;\<newline>a4 = b4;\<newline>a5 = b5;\<newline>a6 = b6;\<newline>a7 = b7;\<newline>a8 = b8;\<newline>a9 = b9;''"

definition demo_code2 :: string where
  "demo_code2 = ''c0 = d0;\<newline>c1 = d1;\<newline>c2 = d2;\<newline>c3 = d3;\<newline>c4 = d4;\<newline>c5 = d5;\<newline>c6 = d6;\<newline>c7 = d7;\<newline>c8 = d8;\<newline>c9 = d9;''"

definition demo_cluster :: duplicate_block where
  "demo_cluster =
     \<lparr>file1 = ''a.ts'', file2 = ''b.ts'',
      lines1 = \<lparr>start = 1, end' = 10\<rparr>, lines2 = \<lparr>start = 1, end' = 10\<rparr>,
      code = demo_code1, similarity = 1, clusterSize = Some 3,
      allFiles = Some [\<lparr>loc_file = ''a.ts'', loc_lines = \<lparr>start = 1, end' = 10\<rparr>\<rparr>,
                       \<lparr>loc_file = ''b.ts'', loc_lines = \<lparr>start = 1, end' = 10\<rparr>\<rparr>,
                       \<lparr>loc_file = ''c.ts'', loc_lines = \<lparr>start = 1, end' = 10\<rparr>\<rparr>],
      patternHash = Some demo_code1\<rparr>"

definition demo_pair :: duplicate_block where
  "demo_pair =
     \<lparr>file1 = ''d.ts'', file2 = ''e.ts'',
      lines1 = \<lparr>start = 4, end' = 13\<rparr>, lines2 = \<lparr>start = 4, end' = 13\<rparr>,
      code = demo_code2, similarity = 10 / 11, clusterSize = None, allFiles = None,
      patternHash = None\<rparr>"

definition demo_report :: analysis where
  "demo_report =
     \<lparr>percentage = 80, severity = High, duplicateBlocks = [demo_cluster, demo_pair],
      totalLines = 50, duplicatedLines = 40\<rparr>"

text \<open>
  Two files with the same ten added lines, nine at the lines 1 to 9 and the tenth at line
  24, so that the one block of each file spans 24 lines; and the same two files together
  with a third file of 301 additions that carries no patch.
\<close>

definition gap_patch :: string where
  "gap_patch = ''@@ -1,0 +1,9 @@\<newline>+a0 = b0;\<newline>+a1 = b1;\<newline>+a2 = b2;\<newline>+a3 = b3;\<newline>+a4 = b4;\<newline>+a5 = b5;\<newline>+a6 = b6;\<newline>+a7 = b7;\<newline>+a8 = b8;\<newline>@@ -20,0 +24,1 @@\<newline>+a9 = b9;''"

definition rounding_files :: js_files where
  "rounding_files = FileArray
     [demo_file ''a.ts'' 10 (PatchText gap_patch), demo_file ''b.ts'' 10 (PatchText gap_patch),
      demo_file ''big.bin'' 301 PatchMissing]"


text \<open>A lock file with the patch of the first example.\<close>

definition lock_file :: pr_file where
  "lock_file = \<lparr>filename = ''package-lock.json'', status = ''modified'', additions = 1000,
     deletions = 0, changes = 1000, patch = PatchText demo_patch1\<rparr>"

text \<open>Two files whose patch has its second hunk before its first: nine added lines at the
  lines 30 to 38, the tenth at line 5.\<close>

definition backward_patch :: string where
  "backward_patch = ''@@ -1,0 +30,9 @@\<newline>+a0 = b0;\<newline>+a1 = b1;\<newline>+a2 = b2;\<newline>+a3 = b3;\<newline>+a4 = b4;\<newline>+a5 = b5;\<newline>+a6 = b6;\<newline>+a7 = b7;\<newline>+a8 = b8;\<newline>@@ -1,0 +5,1 @@\<newline>+a9 = b9;''"

definition backward_files :: js_files where
  "backward_files = FileArray
     [demo_file ''a.ts'' 10 (PatchText backward_patch), demo_file ''b.ts'' 10 (PatchText backward_patch)]"

text \<open>Two files: the first carries the same ten added lines twice, at the lines 1 to 10 and
  at the lines 101 to 110; the second carries them once.\<close>

definition repeat_patch :: string where
  "repeat_patch = demo_patch1 @ ''\<newline>@@ -90,0 +101,10 @@\<newline>+a0 = b0;\<newline>+a1 = b1;\<newline>+a2 = b2;\<newline>+a3 = b3;\<newline>+a4 = b4;\<newline>+a5 = b5;\<newline>+a6 = b6;\<newline>+a7 = b7;\<newline>+a8 = b8;\<newline>+a9 = b9;''"

definition repeat_files :: js_files where
  "repeat_files = FileArray
     [demo_file ''a.ts'' 20 (PatchText repeat_patch), demo_file ''b.ts'' 10 (PatchText demo_patch1)]"

definition repeat_locs :: "file_location list" where
  "repeat_locs =
     [\<lparr>loc_file = ''a.ts'', loc_lines = \<lparr>start = 1, end' = 10\<rparr>\<rparr>,
      \<lparr>loc_file = ''a.ts'', loc_lines = \<lparr>start = 101, end' = 110\<rparr>\<rparr>,
      \<lparr>loc_file = ''b.ts'', loc_lines = \<lparr>start = 1, end' = 10\<rparr>\<rparr>]"

definition repeat_cluster :: duplicate_block where
  "repeat_cluster =
     \<lparr>file1 = ''a.ts'', file2 = ''b.ts'',
      lines1 = \<lparr>start = 1, end' = 10\<rparr>, lines2 = \<lparr>start = 1, end' = 10\<rparr>,
      code = demo_code1, similarity = 1, clusterSize = Some 2,
      allFiles = Some repeat_locs, patternHash = Some demo_code1\<rparr>"

text \<open>A patch that changes the last line of a file with no newline at its end: the marker of
  the missing newline follows the removed line.\<close>

definition marker_patch :: string where
  "marker_patch = join [CHR 0x0A]
     [''@@ -1,2 +1,2 @@'', '' a'', ''-b'', CHR 0x5C # '' No newline at end of file'',
      ''+c'', CHR 0x5C # '' No newline at end of file'']"




section \<open>The first example, evaluated\<close>

lemma demo_analysis: "analyzeDuplication (\<lambda>s. s) demo_files = Some demo_report"
  by code_simp

section \<open>The shape of a returned report\<close>

lemma analyzeDuplication_cases:
  assumes "analyzeDuplication md5 files = Some report"
  obtains (failed) "report = empty_report"
  | (returned) fs blocks duplicates lines_total
    where "files = FileArray fs"
      and "extractCodeBlocks md5 fs = Inr blocks"
      and "findDuplicates md5 blocks = Some duplicates"
      and "calculateTotalLines fs = Inr lines_total"
      and "report =
        \<lparr>percentage =
           of_int (math_round (raw_percentage (calculateDuplicatedLines duplicates) lines_total * 10)) / 10,
         severity = calculateSeverity (raw_percentage (calculateDuplicatedLines duplicates) lines_total),
         duplicateBlocks = duplicates,
         totalLines = lines_total,
         duplicatedLines = calculateDuplicatedLines duplicates\<rparr>"
  using assms
  unfolding analyzeDuplication_def analyze_try_def
  by (auto simp: Let_def split: js_files.splits sum.splits option.splits)

lemma set_insert_by: "set (insert_by cmp x xs) = insert x (set xs)"
  by (induction xs) auto

lemma set_js_sort: "set (js_sort cmp xs) = set xs"
  unfolding js_sort_def by (induction xs) (auto simp: set_insert_by)

lemma sorted_insert_by:
  assumes total: "\<And>a b. cmp a b \<le> 0 \<or> cmp b a \<le> 0"
    and trans: "\<And>a b c. cmp a b \<le> 0 \<Longrightarrow> cmp b c \<le> 0 \<Longrightarrow> cmp a c \<le> 0"
    and "sorted_wrt (\<lambda>a b. cmp a b \<le> 0) xs"
  shows "sorted_wrt (\<lambda>a b. cmp a b \<le> 0) (insert_by cmp x xs)"
  using assms(3)
proof (induction xs)
  case Nil
  then show ?case by simp
next
  case (Cons y ys)
  show ?case
  proof (cases "cmp x y \<le> 0")
    case True
    have "cmp x z \<le> 0" if "z \<in> set ys" for z
      using Cons.prems that True trans by auto
    with True Cons.prems show ?thesis by auto
  next
    case False
    then have "cmp y x \<le> 0" using total by blast
    with False Cons show ?thesis by (auto simp: set_insert_by)
  qed
qed

lemma sorted_js_sort:
  assumes "\<And>a b. cmp a b \<le> 0 \<or> cmp b a \<le> 0"
    and "\<And>a b c. cmp a b \<le> 0 \<Longrightarrow> cmp b c \<le> 0 \<Longrightarrow> cmp a c \<le> 0"
  shows "sorted_wrt (\<lambda>a b. cmp a b \<le> 0) (js_sort cmp xs)"
  unfolding js_sort_def
proof (induction xs)
  case Nil
  then show ?case by simp
next
  case (Cons x xs)
  then show ?case using sorted_insert_by [of cmp, OF assms] by simp
qed



section \<open>Order of the findings\<close>



subsection \<open>Inputs whose added lines are not contiguous\<close>



lemma rounding_eval:
  "map_option (\<lambda>r. (percentage r, severity r)) (analyzeDuplication md5 rounding_files)
     = Some (15, Low)"
  by code_simp







text \<open>
  C3, as stated: the severity is \<open>high\<close> iff the \<open>percentage\<close> field of the report is at
  least 30, \<open>medium\<close> iff it is at least 15 and below 30, and \<open>low\<close> otherwise. It is not:
  the severity is computed from the percentage before it is rounded. For the three files
  above the percentage is 4800 / 321, below 15, and the report holds the rounded 15 with the
  severity \<open>low\<close>.
\<close>

theorem severity_of_rounded_counterexample:
  "\<forall>md5. map_option (\<lambda>r. (percentage r, severity r)) (analyzeDuplication md5 rounding_files)
     = Some (15, Low)"
  using rounding_eval by blast

text \<open>
  C3, amended: for every returned report the severity is \<open>high\<close> iff the percentage before
  rounding (\<open>100 * duplicatedLines / totalLines\<close>, or 0 when \<open>totalLines\<close> is not positive) is
  at least 30, \<open>medium\<close> iff it is at least 15 and below 30, and \<open>low\<close> iff it is below 15.
\<close>

theorem severity_from_raw_percentage:
  assumes "analyzeDuplication md5 files = Some report"
  shows "(severity report = High \<longleftrightarrow>
            raw_percentage (duplicatedLines report) (totalLines report) \<ge> 30)
       \<and> (severity report = Medium \<longleftrightarrow>
            15 \<le> raw_percentage (duplicatedLines report) (totalLines report)
            \<and> raw_percentage (duplicatedLines report) (totalLines report) < 30)
       \<and> (severity report = Low \<longleftrightarrow>
            raw_percentage (duplicatedLines report) (totalLines report) < 15)"
  using assms
proof (cases rule: analyzeDuplication_cases)
  case failed
  then show ?thesis by (simp add: empty_report_def raw_percentage_def)
next
  case (returned fs blocks duplicates lines_total)
  then show ?thesis by (simp add: calculateSeverity_def)
qed

theorem severity_from_raw_percentage_witness:
  "analyzeDuplication (\<lambda>s. s) demo_files = Some demo_report
   \<and> severity demo_report = High
   \<and> raw_percentage (duplicatedLines demo_report) (totalLines demo_report) \<ge> 30"
  using severity_from_raw_percentage [OF demo_analysis] demo_analysis
  by (simp add: demo_report_def)

subsection \<open>The skip filter\<close>

lemma extractCodeBlocks_skip:
  assumes "shouldSkipFile (filename f)"
  shows "extractCodeBlocks md5 (xs @ FileObject f # ys) = extractCodeBlocks md5 (xs @ ys)"
proof (induction xs)
  case Nil
  show ?case using assms by (simp add: blocks_of_file_def split: sum.splits)
next
  case (Cons x xs)
  then show ?case by (cases x) (simp_all split: sum.splits)
qed

lemma total_loop_skip:
  assumes "shouldSkipFile (filename f)"
  shows "total_loop acc (xs @ FileObject f # ys) = total_loop acc (xs @ ys)"
proof (induction xs arbitrary: acc)
  case Nil
  show ?case using assms by simp
next
  case (Cons x xs)
  then show ?case by (cases x) simp_all
qed

text \<open>
  C7. For every list of files and every file in it whose name matches the skip filter
  \<open>shouldSkipFile\<close>, removing that file from the list yields the same report: the same
  percentage, severity, findings, total lines and duplicated lines.
\<close>

theorem skip_filter_idempotent:
  assumes "shouldSkipFile (filename f)"
  shows "analyzeDuplication md5 (FileArray (xs @ FileObject f # ys))
       = analyzeDuplication md5 (FileArray (xs @ ys))"
proof -
  have "analyze_try md5 (FileArray (xs @ FileObject f # ys)) = analyze_try md5 (FileArray (xs @ ys))"
    by (simp only: analyze_try_def calculateTotalLines_def js_files.case
        extractCodeBlocks_skip [OF assms] total_loop_skip [OF assms])
  then show ?thesis unfolding analyzeDuplication_def by simp
qed

lemma lock_file_skipped: "shouldSkipFile (filename lock_file)"
  by code_simp

theorem skip_filter_idempotent_witness:
  "shouldSkipFile (filename lock_file)
   \<and> analyzeDuplication (\<lambda>s. s)
         (FileArray ([demo_file ''a.ts'' 10 (PatchText demo_patch1)] @ FileObject lock_file
            # [demo_file ''b.ts'' 10 (PatchText demo_patch1)]))
     = analyzeDuplication (\<lambda>s. s)
         (FileArray ([demo_file ''a.ts'' 10 (PatchText demo_patch1)]
            @ [demo_file ''b.ts'' 10 (PatchText demo_patch1)]))"
  using skip_filter_idempotent [OF lock_file_skipped] lock_file_skipped by blast

subsection \<open>The analyzer returns\<close>













section \<open>What every stage of the detector keeps\<close>

subsection \<open>Maps of arrays\<close>

lemma values_in_Nil: "values_in S []"
  by (simp add: values_in_def)

lemma values_in_Cons:
  "values_in S (kv # m) \<longleftrightarrow> snd kv \<noteq> [] \<and> set (snd kv) \<subseteq> S \<and> values_in S m"
  by (simp add: values_in_def)

lemma values_in_map_push:
  assumes "values_in S m" and "v \<in> S"
  shows "values_in S (map_push k v m)"
  using assms
proof (induction m)
  case Nil
  then show ?case by (simp add: values_in_Cons values_in_Nil)
next
  case (Cons kv m)
  obtain k' vs where kv: "kv = (k', vs)" by (cases kv)
  from Cons.prems have "vs \<noteq> []" and "set vs \<subseteq> S" and "values_in S m"
    by (simp_all add: values_in_Cons kv)
  with Cons.IH Cons.prems(2) show ?case
    by (simp add: values_in_Cons kv)
qed

lemma values_in_foldl:
  assumes "values_in S m" and "set xs \<subseteq> S"
  shows "values_in S (foldl (\<lambda>m x. map_push (key x) x m) m xs)"
  using assms
proof (induction xs arbitrary: m)
  case Nil
  then show ?case by simp
next
  case (Cons x xs)
  from Cons.prems have "values_in S (map_push (key x) x m)"
    by (intro values_in_map_push) simp_all
  from Cons.IH [OF this] Cons.prems(2) show ?case by simp
qed

lemma values_inD:
  assumes "values_in S m" and "(k, vs) \<in> set m"
  shows "vs \<noteq> []" and "set vs \<subseteq> S"
proof -
  from assms have "snd (k, vs) \<noteq> [] \<and> set (snd (k, vs)) \<subseteq> S"
    unfolding values_in_def by (rule bspec)
  then show "vs \<noteq> []" and "set vs \<subseteq> S" by simp_all
qed

subsection \<open>The pair loops\<close>

lemma pairs_inner_invariant:
  assumes "\<And>y s. y \<in> set ys \<Longrightarrow> I s \<Longrightarrow> I (f x y s)" and "I s"
  shows "I (pairs_inner f x ys s)"
  using assms by (induction ys arbitrary: s) auto

lemma pairs_loop_invariant:
  assumes "\<And>x y s. x \<in> set xs \<Longrightarrow> y \<in> set xs \<Longrightarrow> I s \<Longrightarrow> I (f x y s)" and "I s"
  shows "I (pairs_loop f xs s)"
  using assms
proof (induction xs arbitrary: s)
  case Nil
  then show ?case by simp
next
  case (Cons x xs)
  have "I (pairs_inner f x xs s)"
    by (rule pairs_inner_invariant) (auto intro: Cons.prems)
  then show ?case using Cons by auto
qed

subsection \<open>What the detector emits\<close>

lemma emittedI:
  assumes "bi \<in> B" and "bj \<in> B" and "file bi \<noteq> file bj"
    and "sim = 1 \<or> (SIMILARITY_THRESHOLD \<le> sim \<and> sim < 1)"
  shows "emitted B (pair_of_blocks bi bj sim)"
  unfolding emitted_def using assms by blast

lemma exact_step_emitted:
  assumes "bi \<in> B" and "bj \<in> B" and "\<forall>d \<in> set (fst st). emitted B d"
  shows "\<forall>d \<in> set (fst (exact_step bi bj st)). emitted B d"
proof (cases "file bi = file bj \<or> createDuplicateKey bi bj \<in> set (snd st)")
  case True
  then have "exact_step bi bj st = st" by (auto simp: exact_step_def Let_def)
  with assms(3) show ?thesis by simp
next
  case False
  then have "fst (exact_step bi bj st) = fst st @ [pair_of_blocks bi bj 1]"
    by (simp add: exact_step_def Let_def)
  moreover have "emitted B (pair_of_blocks bi bj 1)"
    using False assms(1,2) by (intro emittedI) simp_all
  ultimately show ?thesis using assms(3) by simp
qed

lemma fuzzy_step_emitted:
  assumes "bi \<in> B" and "bj \<in> B" and "\<forall>d \<in> set (fst st). emitted B d"
  shows "\<forall>d \<in> set (fst (fuzzy_step bi bj st)). emitted B d"
proof -
  let ?sim = "calculateSimilarity (normalizedCode bi) (normalizedCode bj)"
  show ?thesis
  proof (cases "file bi \<noteq> file bj \<and> ?sim \<ge> SIMILARITY_THRESHOLD \<and> ?sim < 1
      \<and> createDuplicateKey bi bj \<notin> set (snd st)")
    case True
    then have "fst (fuzzy_step bi bj st) = fst st @ [pair_of_blocks bi bj ?sim]"
      by (simp add: fuzzy_step_def Let_def)
    moreover have "emitted B (pair_of_blocks bi bj ?sim)"
      using True assms(1,2) by (intro emittedI) simp_all
    ultimately show ?thesis using assms(3) by simp
  next
    case False
    then have "fuzzy_step bi bj st = st" by (auto simp: fuzzy_step_def Let_def)
    with assms(3) show ?thesis by simp
  qed
qed

lemma hash_buckets_values: "values_in (set blocks) (hash_buckets blocks)"
  unfolding hash_buckets_def
  by (rule values_in_foldl) (simp_all add: values_in_Nil)

lemma exact_pass_emitted: "\<forall>d \<in> set (fst (exact_pass blocks)). emitted (set blocks) d"
proof -
  let ?I = "\<lambda>st :: detector_state. \<forall>d \<in> set (fst st). emitted (set blocks) d"
  have step: "?I (bucket_step st kv)" if "?I st" and "set (snd kv) \<subseteq> set blocks" for st kv
  proof -
    have "?I (pairs_loop exact_step (snd kv) st)"
    proof (rule pairs_loop_invariant [where I = ?I])
      fix x y and s :: detector_state
      assume "x \<in> set (snd kv)" and "y \<in> set (snd kv)" and "?I s"
      with that(2) show "?I (exact_step x y s)"
        by (intro exact_step_emitted) auto
    qed (rule that(1))
    with that(1) show ?thesis by (simp add: bucket_step_def)
  qed
  have fold: "?I (foldl bucket_step st m)" if "?I st" and "values_in (set blocks) m" for st m
    using that
  proof (induction m arbitrary: st)
    case Nil
    then show ?case by simp
  next
    case (Cons kv m)
    from Cons.prems(2) have sub: "set (snd kv) \<subseteq> set blocks" and rest: "values_in (set blocks) m"
      by (simp_all add: values_in_Cons)
    from step [OF Cons.prems(1) sub] have "?I (bucket_step st kv)" .
    from Cons.IH [OF this rest] show ?case by simp
  qed
  have "?I ([], [])" by simp
  from fold [OF this hash_buckets_values]
  show ?thesis unfolding exact_pass_def .
qed

lemma detect_pairs_emitted: "\<forall>d \<in> set (detect_pairs blocks). emitted (set blocks) d"
  unfolding detect_pairs_def
proof (rule pairs_loop_invariant
    [where I = "\<lambda>st :: detector_state. \<forall>d \<in> set (fst st). emitted (set blocks) d"])
  fix x y and s :: detector_state
  assume "x \<in> set blocks" and "y \<in> set blocks" and "\<forall>d \<in> set (fst s). emitted (set blocks) d"
  then show "\<forall>d \<in> set (fst (fuzzy_step x y s)). emitted (set blocks) d"
    by (rule fuzzy_step_emitted)
qed (rule exact_pass_emitted)

subsection \<open>What the merger and the clusterer keep\<close>

lemma merge_walk_keeps:
  assumes "\<And>a b. P a \<Longrightarrow> P b \<Longrightarrow> P (merge_two a b)"
    and "P current" and "\<forall>d \<in> set rest. P d"
  shows "\<forall>d \<in> set (merge_walk current rest). P d"
  using assms(2,3)
  by (induction rest arbitrary: current) (auto intro: assms(1))

lemma merge_group_keeps:
  assumes "\<And>a b. P a \<Longrightarrow> P b \<Longrightarrow> P (merge_two a b)" and "\<forall>d \<in> set g. P d"
  shows "\<forall>d \<in> set (merge_group g). P d"
proof -
  let ?sorted = "js_sort (\<lambda>a b. int (start (lines1 a)) - int (start (lines1 b))) g"
  have all: "\<forall>d \<in> set ?sorted. P d" using assms(2) by (simp add: set_js_sort)
  show ?thesis
  proof (cases ?sorted)
    case Nil
    then show ?thesis by (simp add: merge_group_def)
  next
    case (Cons c rest)
    with all have "P c" and "\<forall>d \<in> set rest. P d" by auto
    from merge_walk_keeps [of P, OF assms(1) this] Cons show ?thesis
      by (simp add: merge_group_def)
  qed
qed

lemma file_pair_groups_values: "values_in (set duplicates) (file_pair_groups duplicates)"
  unfolding file_pair_groups_def
  by (rule values_in_foldl) (simp_all add: values_in_Nil)

lemma mergeOverlappingDuplicates_keeps:
  assumes "\<And>a b. P a \<Longrightarrow> P b \<Longrightarrow> P (merge_two a b)" and "\<forall>d \<in> set duplicates. P d"
  shows "\<forall>d \<in> set (mergeOverlappingDuplicates duplicates). P d"
proof
  fix d assume "d \<in> set (mergeOverlappingDuplicates duplicates)"
  then obtain k g where kg: "(k, g) \<in> set (file_pair_groups duplicates)"
    and d: "d \<in> set (merge_group g)"
    unfolding mergeOverlappingDuplicates_def by (auto split: if_splits)
  from values_inD(2) [OF file_pair_groups_values kg] assms(2) have "\<forall>d \<in> set g. P d" by auto
  from merge_group_keeps [of P, OF assms(1) this] d show "P d" by simp
qed

lemma representative_of_member:
  assumes "cluster \<noteq> []"
  shows "representative_of cluster \<in> set cluster"
proof -
  have "foldl (\<lambda>best current. if similarity current > similarity best then current else best) b cs
          \<in> insert b (set cs)" for b :: duplicate_block and cs
    by (induction cs arbitrary: b) (auto split: if_splits)
  from this [of "hd cluster" "tl cluster"] assms show ?thesis
    unfolding representative_of_def by (cases cluster) auto
qed

lemma finding_of_cluster_cases:
  assumes "cluster \<noteq> []"
  obtains (single) "finding_of_cluster md5 cluster \<in> set cluster"
  | (many) rep where "rep \<in> set cluster"
      and "finding_of_cluster md5 cluster =
             rep\<lparr>clusterSize := Some (length (file_locations cluster)),
                 allFiles := Some (all_files_of (file_locations cluster)),
                 patternHash := Some (hashCode md5 (code rep))\<rparr>"
proof (cases "length cluster = 1")
  case True
  then have "finding_of_cluster md5 cluster \<in> set cluster"
    by (cases cluster) (simp_all add: finding_of_cluster_def)
  then show ?thesis by (rule single)
next
  case False
  then show ?thesis
    using representative_of_member [OF assms] many
    by (simp add: finding_of_cluster_def Let_def)
qed

lemma group_by_root_values:
  assumes "group_by_root ds is parent m = Some m'"
    and "values_in (set ds) m" and "\<forall>i \<in> set is. i < length ds"
  shows "values_in (set ds) m'"
  using assms
proof (induction "is" arbitrary: parent m)
  case Nil
  then show ?case by simp
next
  case (Cons i "is")
  from Cons.prems(1) obtain p1 r where "find_uf parent i = Some (p1, r)"
    and rest: "group_by_root ds is p1 (map_push r (ds ! i) m) = Some m'"
    by (auto split: option.splits)
  have "values_in (set ds) (map_push r (ds ! i) m)"
    using Cons.prems(2,3) by (auto intro: values_in_map_push)
  from Cons.IH [OF rest this] Cons.prems(3) show ?case by simp
qed

lemma clusterDuplicatesByPattern_findings:
  assumes "clusterDuplicatesByPattern md5 duplicates = Some clustered"
    and "d \<in> set clustered"
  shows "\<exists>cluster. cluster \<noteq> [] \<and> set cluster \<subseteq> set duplicates
           \<and> d = finding_of_cluster md5 cluster"
proof (cases "duplicates = []")
  case True
  with assms show ?thesis by (simp add: clusterDuplicatesByPattern_def)
next
  case False
  let ?n = "length duplicates"
  let ?u = "union_outer duplicates [0 ..< ?n] [0 ..< ?n]"
  from assms(1) False have run:
    "(case ?u of None \<Rightarrow> None
      | Some parent \<Rightarrow>
          (case group_by_root duplicates [0 ..< ?n] parent [] of None \<Rightarrow> None
           | Some clusterMap \<Rightarrow>
               Some (map (\<lambda>(r, cluster). finding_of_cluster md5 cluster) clusterMap)))
     = Some clustered"
    by (simp only: clusterDuplicatesByPattern_def Let_def if_False)
  then obtain parent where u: "?u = Some parent"
    by (cases ?u) simp_all
  let ?g = "group_by_root duplicates [0 ..< ?n] parent []"
  from run u obtain m where g: "?g = Some m"
    by (cases ?g) simp_all
  from run u g have out: "clustered = map (\<lambda>(r, cluster). finding_of_cluster md5 cluster) m"
    by simp
  have "values_in (set duplicates) m"
    by (rule group_by_root_values [OF g]) (simp_all add: values_in_Nil)
  moreover from assms(2) out obtain r cluster
    where "(r, cluster) \<in> set m" and "d = finding_of_cluster md5 cluster" by auto
  ultimately show ?thesis using values_inD [of "set duplicates" m r cluster] by blast
qed

lemma clusterDuplicatesByPattern_keeps:
  assumes "clusterDuplicatesByPattern md5 duplicates = Some clustered"
    and "\<And>d n fs ph. P d \<Longrightarrow> P (d\<lparr>clusterSize := n, allFiles := fs, patternHash := ph\<rparr>)"
    and "\<forall>d \<in> set duplicates. P d"
  shows "\<forall>d \<in> set clustered. P d"
proof
  fix d assume "d \<in> set clustered"
  from clusterDuplicatesByPattern_findings [OF assms(1) this]
  obtain cluster where ne: "cluster \<noteq> []" and sub: "set cluster \<subseteq> set duplicates"
    and d: "d = finding_of_cluster md5 cluster" by blast
  from ne show "P d"
  proof (cases rule: finding_of_cluster_cases [of cluster md5])
    case single
    with sub assms(3) d show ?thesis by auto
  next
    case (many rep)
    with sub assms(3) have "P rep" by auto
    from assms(2) [OF this] many(2) d show ?thesis by simp
  qed
qed

lemma findDuplicates_keeps:
  assumes "findDuplicates md5 blocks = Some duplicates"
    and "\<And>d. emitted (set blocks) d \<Longrightarrow> P d"
    and "\<And>a b. P a \<Longrightarrow> P b \<Longrightarrow> P (merge_two a b)"
    and "\<And>d n fs ph. P d \<Longrightarrow> P (d\<lparr>clusterSize := n, allFiles := fs, patternHash := ph\<rparr>)"
  shows "\<forall>d \<in> set duplicates. P d"
proof -
  let ?merged = "mergeOverlappingDuplicates (detect_pairs blocks)"
  from assms(1) obtain clustered
    where c: "clusterDuplicatesByPattern md5 ?merged = Some clustered"
      and out: "duplicates = js_sort report_order clustered"
    by (auto simp: findDuplicates_def split: option.splits)
  have "\<forall>d \<in> set (detect_pairs blocks). P d"
    using detect_pairs_emitted assms(2) by blast
  from mergeOverlappingDuplicates_keeps [of P, OF assms(3) this]
  have "\<forall>d \<in> set ?merged. P d" .
  from clusterDuplicatesByPattern_keeps [of md5 ?merged clustered P, OF c assms(4) this]
  show ?thesis using out by (simp add: set_js_sort)
qed

subsection \<open>File names and line ranges of the findings\<close>

lemma window_ends:
  assumes "sorted (map lineNumber lines)" and "MIN_BLOCK_SIZE \<le> length lines"
    and "w \<in> set (windows lines)"
  shows "lineNumber (w ! 0) \<le> lineNumber (w ! (length w - 1))"
proof -
  from assms(3) have "w \<in> (\<lambda>i. take MIN_BLOCK_SIZE (drop i lines))
      ` set [0 ..< Suc (length lines - MIN_BLOCK_SIZE)]"
    unfolding windows_def by (simp only: set_map)
  then obtain i where "i \<in> set [0 ..< Suc (length lines - MIN_BLOCK_SIZE)]"
    and w: "w = take MIN_BLOCK_SIZE (drop i lines)" by blast
  then have i: "i < Suc (length lines - MIN_BLOCK_SIZE)"
    by (simp only: set_upt atLeastLessThan_iff)
  have "map lineNumber w = take MIN_BLOCK_SIZE (drop i (map lineNumber lines))"
    by (simp add: w take_map drop_map)
  with assms(1) have sorted: "sorted (map lineNumber w)"
    by (simp add: sorted_wrt_take sorted_wrt_drop)
  have len: "length w = MIN_BLOCK_SIZE"
    using i assms(2) by (simp add: w MIN_BLOCK_SIZE_def)
  then have "0 < length w" by (simp add: MIN_BLOCK_SIZE_def)
  then have "map lineNumber w ! 0 \<le> map lineNumber w ! (length w - 1)"
    using sorted by (intro sorted_nth_mono) simp_all
  with \<open>0 < length w\<close> show ?thesis by simp
qed

lemma block_of_window_range:
  assumes "b \<in> set (block_of_window md5 name w)"
  shows "startLine b = lineNumber (w ! 0)" and "endLine b = lineNumber (w ! (length w - 1))"
  using assms unfolding block_of_window_def by (auto simp: Let_def split: if_splits)

lemma blocks_of_file_ranges:
  assumes "blocks_of_file md5 g = Inr bs" and "ascending_patch (FileObject g)"
  shows "\<forall>b \<in> set bs. startLine b \<le> endLine b"
proof
  fix b assume b: "b \<in> set bs"
  show "startLine b \<le> endLine b"
  proof (cases "patch g")
    case PatchMissing
    with assms(1) b show ?thesis by (simp add: blocks_of_file_def split: if_splits)
  next
    case PatchNotString
    with assms(1) b show ?thesis by (simp add: blocks_of_file_def split: if_splits)
  next
    case (PatchText p)
    let ?lines = "extractAddedLines p"
    from assms(2) PatchText have sorted: "sorted (map lineNumber ?lines)"
      by (simp add: ascending_patch_def)
    from assms(1) b PatchText have long: "MIN_BLOCK_SIZE \<le> length ?lines"
      and "b \<in> set (concat (map (block_of_window md5 (filename g)) (windows ?lines)))"
      by (auto simp: blocks_of_file_def Let_def split: if_splits)
    then obtain w where w: "w \<in> set (windows ?lines)"
      and "b \<in> set (block_of_window md5 (filename g) w)" by auto
    from block_of_window_range [OF this(2)] window_ends [OF sorted long w]
    show ?thesis by simp
  qed
qed

lemma extractCodeBlocks_ranges:
  assumes "extractCodeBlocks md5 fs = Inr blocks" and "list_all ascending_patch fs"
  shows "\<forall>b \<in> set blocks. startLine b \<le> endLine b"
  using assms
proof (induction md5 fs arbitrary: blocks rule: extractCodeBlocks.induct)
  case (1 md5)
  then show ?case by simp
next
  case (2 md5 fs)
  then show ?case by simp
next
  case (3 md5 f fs)
  from "3.prems"(1) obtain bs rest where bs: "blocks_of_file md5 f = Inr bs"
    and rest: "extractCodeBlocks md5 fs = Inr rest" and blocks: "blocks = bs @ rest"
    by (auto split: sum.splits)
  from "3.prems"(2) have "ascending_patch (FileObject f)" and "list_all ascending_patch fs"
    by simp_all
  from blocks_of_file_ranges [OF bs this(1)] "3.IH" [OF bs rest this(2)] blocks
  show ?case by auto
qed

lemma backward_eval:
  "map_option (\<lambda>r. map (\<lambda>d. (start (lines1 d), end' (lines1 d))) (duplicateBlocks r))
     (analyzeDuplication md5 backward_files) = Some [(30, 5)]"
  by code_simp

text \<open>
  C4, as stated: for every input, every finding of the report has \<open>file1 \<noteq> file2\<close> and
  \<open>start \<le> end\<close> in both line ranges. The ranges are not ordered for every input: a block
  takes its start from its first and its end from its last added line, and a hunk header
  resets the line counter to whatever it says. For the two files above the one finding has
  the range from 30 to 5.
\<close>

theorem range_order_counterexample:
  "\<forall>md5. map_option (\<lambda>r. map (\<lambda>d. (start (lines1 d), end' (lines1 d))) (duplicateBlocks r))
     (analyzeDuplication md5 backward_files) = Some [(30, 5)]"
  using backward_eval by blast

text \<open>
  C4, amended: for every input, every finding of the report has \<open>file1 \<noteq> file2\<close>; and when
  in every patch of the input the line numbers of the added lines do not decrease, every
  finding has \<open>start \<le> end\<close> in both line ranges.
\<close>

theorem findings_well_formed:
  assumes "analyzeDuplication md5 files = Some report"
  shows "\<forall>d \<in> set (duplicateBlocks report).
           file1 d \<noteq> file2 d
           \<and> (ascending_input files \<longrightarrow>
                start (lines1 d) \<le> end' (lines1 d) \<and> start (lines2 d) \<le> end' (lines2 d))"
  using assms
proof (cases rule: analyzeDuplication_cases)
  case failed
  then show ?thesis by (simp add: empty_report_def)
next
  case (returned fs blocks duplicates lines_total)
  have files: "\<forall>d \<in> set duplicates. file1 d \<noteq> file2 d"
    by (rule findDuplicates_keeps [OF returned(3)])
      (auto simp: emitted_def pair_of_blocks_def merge_two_def)
  have ranges: "\<forall>d \<in> set duplicates.
      start (lines1 d) \<le> end' (lines1 d) \<and> start (lines2 d) \<le> end' (lines2 d)"
    if "ascending_input files"
  proof (rule findDuplicates_keeps [OF returned(3)])
    fix d assume "emitted (set blocks) d"
    moreover from that returned(1) have "list_all ascending_patch fs"
      by (simp add: ascending_input_def)
    note extractCodeBlocks_ranges [OF returned(2) this]
    ultimately show "start (lines1 d) \<le> end' (lines1 d) \<and> start (lines2 d) \<le> end' (lines2 d)"
      by (auto simp: emitted_def pair_of_blocks_def)
  qed (auto simp: merge_two_def)
  from files ranges returned(5) show ?thesis by simp
qed

lemma demo_ascending: "ascending_input demo_files"
  by code_simp

theorem findings_well_formed_witness:
  "analyzeDuplication (\<lambda>s. s) demo_files = Some demo_report
   \<and> ascending_input demo_files
   \<and> list_all (\<lambda>d. file1 d \<noteq> file2 d
        \<and> start (lines1 d) \<le> end' (lines1 d) \<and> start (lines2 d) \<le> end' (lines2 d))
       (duplicateBlocks demo_report)"
  using findings_well_formed [OF demo_analysis] demo_analysis demo_ascending
  by (simp add: list_all_iff)

section \<open>Similarity of the findings\<close>

subsection \<open>The dedup key\<close>






subsection \<open>Every pair of an array is visited\<close>



subsection \<open>The buckets of the first pass\<close>

lemma map_push_keys: "map fst (map_push k v m) = (if k \<in> fst ` set m then map fst m else map fst m @ [k])"
  by (induction m) (auto split: if_splits)

lemma map_push_distinct: "distinct (map fst m) \<Longrightarrow> distinct (map fst (map_push k v m))"
  by (simp add: map_push_keys)








subsection \<open>Exact matches\<close>















section \<open>Clustered findings\<close>

lemma range_walk_apart:
  assumes "sorted_wrt (\<lambda>a b. start a \<le> start b) (current # rest)"
  shows "sorted_wrt (\<lambda>a b. end' a + 2 < start b) (range_walk current rest)
       \<and> (\<forall>r \<in> set (range_walk current rest). start current \<le> start r)"
  using assms
proof (induction rest arbitrary: current)
  case Nil
  then show ?case by simp
next
  case (Cons nxt rest)
  show ?case
  proof (cases "start nxt \<le> end' current + 2")
    case True
    let ?merged = "\<lparr>start = min (start current) (start nxt),
                     end' = max (end' current) (end' nxt)\<rparr>"
    from Cons.prems have "start ?merged = start current" by (simp add: min_def)
    with Cons.prems have "sorted_wrt (\<lambda>a b. start a \<le> start b) (?merged # rest)" by simp
    from Cons.IH [OF this] \<open>start ?merged = start current\<close> True show ?thesis by simp
  next
    case False
    from Cons.prems have "sorted_wrt (\<lambda>a b. start a \<le> start b) (nxt # rest)"
      and le: "start current \<le> start nxt" by simp_all
    from Cons.IH [OF this(1)] have
      apart: "sorted_wrt (\<lambda>a b. end' a + 2 < start b) (range_walk nxt rest)"
      and lower: "\<forall>r \<in> set (range_walk nxt rest). start nxt \<le> start r" by simp_all
    from lower False have "\<forall>r \<in> set (range_walk nxt rest). end' current + 2 < start r"
      by fastforce
    moreover from lower le have "\<forall>r \<in> set (range_walk nxt rest). start current \<le> start r"
      by fastforce
    ultimately show ?thesis using apart False by simp
  qed
qed

lemma range_walk_nonempty: "range_walk current rest \<noteq> []"
  by (induction rest arbitrary: current) auto

lemma js_sort_nonempty: "xs \<noteq> [] \<Longrightarrow> js_sort cmp xs \<noteq> []"
  using set_js_sort [of cmp xs] by (metis set_empty)

lemma merged_ranges_nonempty: "ranges \<noteq> [] \<Longrightarrow> merged_ranges ranges \<noteq> []"
  using js_sort_nonempty [of ranges "\<lambda>a b. int (start a) - int (start b)"]
  by (auto simp: merged_ranges_def range_walk_nonempty split: list.splits)

lemma merged_ranges_apart:
  "sorted_wrt (\<lambda>a b. end' a + 2 < start b) (merged_ranges ranges)"
proof -
  let ?cmp = "\<lambda>a b :: line_range. int (start a) - int (start b)"
  have "sorted_wrt (\<lambda>a b. ?cmp a b \<le> 0) (js_sort ?cmp ranges)"
    by (rule sorted_js_sort) auto
  then have sorted: "sorted_wrt (\<lambda>a b. start a \<le> start b) (js_sort ?cmp ranges)" by simp
  show ?thesis
  proof (cases "js_sort ?cmp ranges")
    case Nil
    then show ?thesis by (simp add: merged_ranges_def)
  next
    case (Cons current rest)
    with sorted range_walk_apart [of current rest] show ?thesis
      by (simp add: merged_ranges_def)
  qed
qed

lemma file_locations_shape:
  "distinct (map fst (file_locations cluster)) \<and> values_in UNIV (file_locations cluster)"
proof -
  have "distinct (map fst (foldl (\<lambda>m inst. map_push (file2 inst) (lines2 inst)
            (map_push (file1 inst) (lines1 inst) m)) m cluster))
      \<and> values_in UNIV (foldl (\<lambda>m inst. map_push (file2 inst) (lines2 inst)
            (map_push (file1 inst) (lines1 inst) m)) m cluster)"
    if "distinct (map fst m)" and "values_in UNIV m" for m :: "(string \<times> line_range list) list"
    using that
  proof (induction cluster arbitrary: m)
    case Nil
    then show ?case by simp
  next
    case (Cons inst cluster)
    let ?m = "map_push (file2 inst) (lines2 inst) (map_push (file1 inst) (lines1 inst) m)"
    from Cons.prems have "distinct (map fst ?m)" and "values_in UNIV ?m"
      by (simp_all add: map_push_distinct values_in_map_push)
    from Cons.IH [OF this] show ?case by simp
  qed
  from this [of "[]"] show ?thesis by (simp add: file_locations_def values_in_Nil)
qed

lemma all_files_of_shape:
  assumes "distinct (map fst fl)" and "values_in UNIV fl"
  shows "loc_file ` set (all_files_of fl) = fst ` set fl
       \<and> sorted_wrt apart (all_files_of fl)"
  using assms
proof (induction fl)
  case Nil
  then show ?case by (simp add: all_files_of_def)
next
  case (Cons kv fl)
  obtain f ranges where kv: "kv = (f, ranges)" by (cases kv)
  let ?seg = "map (\<lambda>r. \<lparr>loc_file = f, loc_lines = r\<rparr>) (merged_ranges ranges)"
  have split: "all_files_of (kv # fl) = ?seg @ all_files_of fl"
    by (simp add: all_files_of_def kv)
  from Cons.prems have fresh: "f \<notin> fst ` set fl" and dist: "distinct (map fst fl)"
    and ne: "ranges \<noteq> []" and rest: "values_in UNIV fl"
    by (simp_all add: kv values_in_Cons)
  from Cons.IH [OF dist rest] have
    files: "loc_file ` set (all_files_of fl) = fst ` set fl"
    and sorted: "sorted_wrt apart (all_files_of fl)" by simp_all
  have seg_files: "loc_file ` set ?seg = {f}"
    using merged_ranges_nonempty [OF ne] by (cases "merged_ranges ranges") auto
  have seg_sorted: "sorted_wrt apart ?seg"
    using merged_ranges_apart [of ranges] by (simp add: sorted_wrt_map apart_def)
  have cross: "\<forall>x \<in> set ?seg. \<forall>y \<in> set (all_files_of fl). apart x y"
  proof (intro ballI)
    fix x y assume "x \<in> set ?seg" and "y \<in> set (all_files_of fl)"
    with seg_files files have "loc_file x = f" and "loc_file y \<in> fst ` set fl" by auto
    with fresh have "loc_file x \<noteq> loc_file y" by metis
    then show "apart x y" by (simp add: apart_def)
  qed
  show ?case
    unfolding split using files seg_files sorted seg_sorted cross
    by (simp add: sorted_wrt_append image_Un kv)
qed

lemma apart_no_overlap:
  assumes "apart x y" and "loc_file x = loc_file y"
  shows "\<not> ranges_overlap (loc_lines x) (loc_lines y)"
    and "\<not> ranges_overlap (loc_lines y) (loc_lines x)"
  using assms by (auto simp: apart_def ranges_overlap_def)

lemma cluster_locations:
  fixes cluster :: "duplicate_block list"
  defines "locs \<equiv> all_files_of (file_locations cluster)"
  shows "length (file_locations cluster) = card (loc_file ` set locs)"
    and "\<forall>i < length locs. \<forall>j < length locs.
           i \<noteq> j \<and> loc_file (locs ! i) = loc_file (locs ! j)
           \<longrightarrow> \<not> ranges_overlap (loc_lines (locs ! i)) (loc_lines (locs ! j))"
proof -
  let ?fl = "file_locations cluster"
  from file_locations_shape [of cluster] have dist: "distinct (map fst ?fl)"
    and vals: "values_in UNIV ?fl" by simp_all
  from all_files_of_shape [OF dist vals] have files: "loc_file ` set locs = fst ` set ?fl"
    and sorted: "sorted_wrt apart locs" by (simp_all add: locs_def)
  have "card (fst ` set ?fl) = length ?fl"
    using distinct_card [OF dist] by simp
  with files show "length ?fl = card (loc_file ` set locs)" by simp
  show "\<forall>i < length locs. \<forall>j < length locs.
           i \<noteq> j \<and> loc_file (locs ! i) = loc_file (locs ! j)
           \<longrightarrow> \<not> ranges_overlap (loc_lines (locs ! i)) (loc_lines (locs ! j))"
  proof (intro allI impI)
    fix i j assume i: "i < length locs" and j: "j < length locs"
      and ij: "i \<noteq> j \<and> loc_file (locs ! i) = loc_file (locs ! j)"
    show "\<not> ranges_overlap (loc_lines (locs ! i)) (loc_lines (locs ! j))"
    proof (cases "i < j")
      case True
      with sorted j have "apart (locs ! i) (locs ! j)" by (simp add: sorted_wrt_iff_nth_less)
      from apart_no_overlap(1) [OF this] ij show ?thesis by simp
    next
      case False
      with ij have "j < i" by simp
      with sorted i have "apart (locs ! j) (locs ! i)" by (simp add: sorted_wrt_iff_nth_less)
      from apart_no_overlap(2) [OF this] ij show ?thesis by simp
    qed
  qed
qed

lemma repeat_eval:
  "map_option duplicateBlocks (analyzeDuplication (\<lambda>s. s) repeat_files) = Some [repeat_cluster]"
  by code_simp

text \<open>
  C9. For every input, every clustered finding of the report (one that carries \<open>clusterSize\<close>
  and \<open>allFiles\<close>) has a \<open>clusterSize\<close> equal to the number of distinct files in \<open>allFiles\<close>, and
  no two entries of \<open>allFiles\<close> for the same file have overlapping line ranges.
\<close>

theorem cluster_findings:
  assumes "analyzeDuplication md5 files = Some report"
  shows "\<forall>d \<in> set (duplicateBlocks report). \<forall>n locs.
           clusterSize d = Some n \<and> allFiles d = Some locs \<longrightarrow>
             n = card (loc_file ` set locs)
             \<and> (\<forall>i < length locs. \<forall>j < length locs.
                  i \<noteq> j \<and> loc_file (locs ! i) = loc_file (locs ! j)
                  \<longrightarrow> \<not> ranges_overlap (loc_lines (locs ! i)) (loc_lines (locs ! j)))"
  using assms
proof (cases rule: analyzeDuplication_cases)
  case failed
  then show ?thesis by (simp add: empty_report_def)
next
  case (returned fs blocks duplicates lines_total)
  let ?merged = "mergeOverlappingDuplicates (detect_pairs blocks)"
  from returned(3) obtain clustered
    where c: "clusterDuplicatesByPattern md5 ?merged = Some clustered"
      and out: "duplicates = js_sort report_order clustered"
    by (auto simp: findDuplicates_def split: option.splits)
  have "\<forall>d \<in> set (detect_pairs blocks). clusterSize d = None"
    using detect_pairs_emitted [of blocks] by (auto simp: emitted_def pair_of_blocks_def)
  then have plain: "\<forall>d \<in> set ?merged. clusterSize d = None"
    by (rule mergeOverlappingDuplicates_keeps [rotated]) (simp add: merge_two_def)
  show ?thesis
  proof (intro ballI allI impI)
    fix d n locs
    assume "d \<in> set (duplicateBlocks report)"
      and some: "clusterSize d = Some n \<and> allFiles d = Some locs"
    with returned(5) out have "d \<in> set clustered" by (simp add: set_js_sort)
    from clusterDuplicatesByPattern_findings [OF c this]
    obtain cluster where ne: "cluster \<noteq> []" and sub: "set cluster \<subseteq> set ?merged"
      and d: "d = finding_of_cluster md5 cluster" by blast
    from ne show "n = card (loc_file ` set locs)
        \<and> (\<forall>i < length locs. \<forall>j < length locs.
              i \<noteq> j \<and> loc_file (locs ! i) = loc_file (locs ! j)
              \<longrightarrow> \<not> ranges_overlap (loc_lines (locs ! i)) (loc_lines (locs ! j)))"
    proof (cases rule: finding_of_cluster_cases [of cluster md5])
      case single
      with sub plain d have "clusterSize d = None" by auto
      with some show ?thesis by simp
    next
      case (many rep)
      with d some have "n = length (file_locations cluster)"
        and "locs = all_files_of (file_locations cluster)" by simp_all
      with cluster_locations [of cluster] show ?thesis by simp
    qed
  qed
qed

theorem cluster_findings_witness:
  "(\<exists>report. analyzeDuplication (\<lambda>s. s) repeat_files = Some report
      \<and> duplicateBlocks report = [repeat_cluster])
   \<and> clusterSize repeat_cluster = Some 2 \<and> allFiles repeat_cluster = Some repeat_locs
   \<and> 2 = card (loc_file ` set repeat_locs)
   \<and> loc_file (repeat_locs ! 0) = loc_file (repeat_locs ! 1)
   \<and> \<not> ranges_overlap (loc_lines (repeat_locs ! 0)) (loc_lines (repeat_locs ! 1))"
proof -
  from repeat_eval obtain report
    where r: "analyzeDuplication (\<lambda>s. s) repeat_files = Some report"
      and blocks: "duplicateBlocks report = [repeat_cluster]" by auto
  have size: "clusterSize repeat_cluster = Some 2"
    and locs: "allFiles repeat_cluster = Some repeat_locs"
    by (simp_all add: repeat_cluster_def)
  from cluster_findings [OF r] blocks size locs
  have "2 = card (loc_file ` set repeat_locs)"
    and apart: "\<forall>i < length repeat_locs. \<forall>j < length repeat_locs.
      i \<noteq> j \<and> loc_file (repeat_locs ! i) = loc_file (repeat_locs ! j)
      \<longrightarrow> \<not> ranges_overlap (loc_lines (repeat_locs ! i)) (loc_lines (repeat_locs ! j))"
    by simp_all
  moreover have same: "loc_file (repeat_locs ! 0) = loc_file (repeat_locs ! 1)"
    by (simp add: repeat_locs_def)
  moreover have len: "length repeat_locs = 3"
    by (simp add: repeat_locs_def)
  moreover from apart [rule_format, of 0 1] len same
  have "\<not> ranges_overlap (loc_lines (repeat_locs ! 0)) (loc_lines (repeat_locs ! 1))"
    by simp
  ultimately show ?thesis using r blocks size locs
    by (intro conjI exI [of _ report]) simp_all
qed

section \<open>Line numbers of the added lines\<close>













text \<open>A line that is neither a hunk header nor an added, removed or context line also
  advances the counter. After the marker of a missing newline at the end of the old file,
  the added line of the patch \<open>marker_patch\<close> is numbered 3; it is line 2 of the post-image.\<close>

lemma marker_shifts_line_number:
  "extractAddedLines marker_patch = [\<lparr>lineNumber = 3, content = ''c''\<rparr>]
   \<and> post_image_added_lines marker_patch = [\<lparr>lineNumber = 2, content = ''c''\<rparr>]"
  by code_simp


section \<open>What the normalizer does not tell apart\<close>

lemma toLowerChar_code:
  "(of_char (toLowerChar c) :: nat) =
     (if (65 \<le> (of_char c :: nat) \<and> (of_char c :: nat) \<le> 90)
         \<or> (192 \<le> (of_char c :: nat) \<and> (of_char c :: nat) \<le> 222 \<and> (of_char c :: nat) \<noteq> 215)
      then of_char c + 32 else of_char c)"
  by (simp add: toLowerChar_def Let_def)

lemma toLowerChar_eq_caseless:
  assumes "caseless x"
  shows "toLowerChar c = x \<longleftrightarrow> c = x"
proof -
  have "toLowerChar c = x \<longleftrightarrow> (of_char (toLowerChar c) :: nat) = of_char x"
    by simp
  also have "\<dots> \<longleftrightarrow> (of_char c :: nat) = of_char x"
    using assms unfolding toLowerChar_code caseless_def Let_def by auto
  also have "\<dots> \<longleftrightarrow> c = x" by simp
  finally show ?thesis .
qed

lemma toLowerChar_eq_caseless':
  assumes "caseless x"
  shows "x = toLowerChar c \<longleftrightarrow> c = x"
  using toLowerChar_eq_caseless [OF assms, of c] by auto


























end
